theory Spec2Isabelle
  imports Main
begin

section \<open>Data model of device.py\<close>

text \<open>
  Locations are Python integers. Readings are the values stored in a device's
  \<open>sensor_data\<close> dictionary; the module never computes with them, so their type is a
  parameter \<open>'v\<close>. A script is an opaque object of the supervisor; its type is a
  parameter \<open>'s\<close> and its method \<open>run\<close> is passed to the worker as a function that
  returns a result or raises. Device objects and threads are named by natural numbers
  (their addresses), so that a device can appear in any number of neighbour lists, also
  in its own.
\<close>

type_synonym location = int

datatype error = IndexError | TypeError | RuntimeError | ScriptError

text \<open>
  Class \<open>Barrier\<close> (lines 8-30). \<open>waiting\<close> is the set of threads blocked in
  \<open>cond.wait()\<close>, in arrival order; \<open>notify_all\<close> wakes exactly those.
\<close>

record barrier =
  num_threads :: int
  count_threads :: int
  waiting :: "nat list"

text \<open>
  Class \<open>Device\<close> (lines 40-74). \<open>neighbours\<close> holds the addresses of the peer
  devices, or \<open>None\<close> for Python's \<open>None\<close>, the termination sentinel. The two
  \<open>Event\<close> objects are their internal flags. \<open>lock_script\<close> has no field: the
  statements it protects (lines 199-202) are one step of the worker. The supervisor and
  the thread objects are not part of the device's state here; what the code reads from
  the supervisor is a parameter of the function that reads it.
\<close>

record ('s, 'v) device =
  device_id :: int
  sensor_data :: "location \<rightharpoonup> 'v"
  scripts :: "'s list"
  locations :: "location list"
  nr_scripturi :: int
  script_crt :: int
  timepoint_done :: bool
  neighbours :: "nat list option"
  event_neighbours :: bool
  bar_thr :: barrier

text \<open>
  A worker thread inside the inner loop of \<open>DeviceThread.run\<close> (lines 197-236): the
  statement it executes next, with the local variables \<open>index\<close>, \<open>location\<close>, \<open>script\<close>
  and \<open>script_data\<close> that are live there.
  \<^item> \<open>Claiming\<close>: before line 199;
  \<^item> \<open>Claimed index\<close>: before the test of line 205;
  \<^item> \<open>Acquiring location script\<close>: before \<open>Device.locks[location].acquire()\<close>, line 213;
  \<^item> \<open>Holding location script\<close>: the lock is held, before the reads of lines 215-224;
  \<^item> \<open>Gathered location script script_data\<close>: before the test of line 226;
  \<^item> \<open>Releasing location\<close>: before \<open>Device.locks[location].release()\<close>, line 236;
  \<^item> \<open>Yielded\<close>: the loop is left by \<open>break\<close>, before \<open>bar_thr.wait()\<close>, line 239;
  \<^item> \<open>Crashed e\<close>: an exception has ended the thread.
\<close>

datatype ('s, 'v) pc =
    Claiming
  | Claimed int
  | Acquiring location 's
  | Holding location 's
  | Gathered location 's "'v list"
  | Releasing location
  | Yielded
  | Crashed error

record ('s, 'v) thread =
  owner :: nat
  pc :: "('s, 'v) pc"

text \<open>
  The whole program: the device objects, the class attributes \<open>Device.locks\<close> (a lock is
  its state, \<open>True\<close> when held) and \<open>Device.bariera_devices\<close>, and the threads.
\<close>

record ('s, 'v) system =
  devices :: "nat \<Rightarrow> ('s, 'v) device"
  locks :: "bool list"
  bariera_devices :: barrier
  threads :: "nat \<Rightarrow> ('s, 'v) thread"

text \<open>
  What an operation on a lock does: it raises, it blocks (the caller waits and nothing
  changes), or it completes with a new state.
\<close>

datatype 'a outcome = Raised error | Blocked | Done 'a

section \<open>Python list indexing\<close>

text \<open>
  Python's list index, as in \<open>xs[i]\<close>: the position it selects, counting from the end
  for a negative \<open>i\<close>, or \<open>None\<close> where Python raises \<open>IndexError\<close>.
\<close>

definition py_index :: "'a list \<Rightarrow> int \<Rightarrow> nat option" where
  "py_index xs i =
     (let n = int (length xs) in
      if 0 \<le> i \<and> i < n then Some (nat i)
      else if - n \<le> i \<and> i < 0 then Some (nat (n + i))
      else None)"

definition py_getitem :: "'a list \<Rightarrow> int \<Rightarrow> 'a option" where
  "py_getitem xs i = (case py_index xs i of None \<Rightarrow> None | Some k \<Rightarrow> Some (xs ! k))"

section \<open>Barrier\<close>

text \<open>\<open>Barrier.__init__\<close> (lines 11-15): three assignments, no check, no raise.\<close>

definition Barrier_fields :: "int \<Rightarrow> barrier" where
  "Barrier_fields n = \<lparr>num_threads = n, count_threads = n, waiting = []\<rparr>"

definition Barrier_init :: "int \<Rightarrow> error + barrier" where
  "Barrier_init n = Inr (Barrier_fields n)"

text \<open>
  \<open>Barrier.wait\<close> (lines 20-30), called by thread \<open>t\<close>. The body runs under the
  condition's lock, so an arrival is one step. The result is the new barrier and the
  threads that this arrival lets continue: the caller and every thread woken by
  \<open>notify_all\<close> when the counter reaches zero, nobody when the caller blocks in
  \<open>cond.wait()\<close>.
\<close>

definition wait :: "barrier \<Rightarrow> nat \<Rightarrow> barrier \<times> nat list" where
  "wait b t =
     (let b1 = b\<lparr>count_threads := count_threads b - 1\<rparr> in
      if count_threads b1 = 0
      then (b1\<lparr>count_threads := num_threads b1, waiting := []\<rparr>, waiting b1 @ [t])
      else (b1\<lparr>waiting := waiting b1 @ [t]\<rparr>, []))"

text \<open>A sequence of arrivals; the result lists, per arrival, the threads it released.\<close>

fun wait_all :: "barrier \<Rightarrow> nat list \<Rightarrow> barrier \<times> nat list list" where
  "wait_all b [] = (b, [])"
| "wait_all b (t # ts) =
     (case wait b t of (b1, rel) \<Rightarrow>
        (case wait_all b1 ts of (b2, rels) \<Rightarrow> (b2, rel # rels)))"

section \<open>Device methods\<close>

text \<open>\<open>Device.__init__\<close> (lines 55-74), without the thread objects.\<close>

definition Device_init :: "int \<Rightarrow> (location \<rightharpoonup> 'v) \<Rightarrow> ('s, 'v) device" where
  "Device_init did sd =
     \<lparr>device_id = did, sensor_data = sd, scripts = [], locations = [],
      nr_scripturi = 0, script_crt = 0, timepoint_done = False,
      neighbours = Some [], event_neighbours = False, bar_thr = Barrier_fields 8\<rparr>"

text \<open>
  \<open>assign_script\<close> (lines 119-124). The argument \<open>None\<close> is Python's \<open>None\<close>.
\<close>

definition assign_script ::
  "('s, 'v) device \<Rightarrow> 's option \<Rightarrow> location \<Rightarrow> ('s, 'v) device" where
  "assign_script d script loc =
     (case script of
        Some sc \<Rightarrow> d\<lparr>scripts := scripts d @ [sc],
                     locations := locations d @ [loc],
                     nr_scripturi := nr_scripturi d + 1\<rparr>
      | None \<Rightarrow> d\<lparr>timepoint_done := True\<rparr>)"

text \<open>
  \<open>get_data\<close> (lines 136-137), as a method on the device state: it returns the value and
  the state it leaves behind.
\<close>

definition get_data :: "('s, 'v) device \<Rightarrow> location \<Rightarrow> 'v option \<times> ('s, 'v) device" where
  "get_data d loc =
     ((if sensor_data d loc \<noteq> None then Some (the (sensor_data d loc)) else None), d)"

text \<open>\<open>set_data\<close> (lines 149-150).\<close>

definition set_data :: "('s, 'v) device \<Rightarrow> location \<Rightarrow> 'v \<Rightarrow> ('s, 'v) device" where
  "set_data d loc data =
     (if sensor_data d loc \<noteq> None then d\<lparr>sensor_data := (sensor_data d)(loc \<mapsto> data)\<rparr>
      else d)"

section \<open>Round transition\<close>

text \<open>
  What the thread with \<open>first == 1\<close> does to its device at the start of a round
  (lines 184-186; \<open>nbs\<close> is what \<open>supervisor.get_neighbours()\<close> returned) and between the
  two \<open>bar_thr.wait()\<close> calls at its end (lines 242-243).
\<close>

definition begin_round :: "('s, 'v) device \<Rightarrow> nat list option \<Rightarrow> ('s, 'v) device" where
  "begin_round d nbs = d\<lparr>neighbours := nbs, script_crt := 0, event_neighbours := True\<rparr>"

definition reset_round :: "('s, 'v) device \<Rightarrow> ('s, 'v) device" where
  "reset_round d = d\<lparr>event_neighbours := False, timepoint_done := False\<rparr>"

section \<open>The lock registry\<close>

text \<open>
  \<open>setup_devices\<close> (lines 102-105). \<open>devs\<close> is the list of all devices and
  \<open>num_locations\<close> the value of \<open>self.supervisor.supervisor.testcase.num_locations\<close>;
  \<open>range\<close> of a negative number is empty. \<open>append_locks\<close> is the loop of lines 104-105.
\<close>

primrec append_locks :: "nat \<Rightarrow> bool list \<Rightarrow> bool list" where
  "append_locks 0 ls = ls"
| "append_locks (Suc k) ls = append_locks k (ls @ [False])"

definition setup_devices :: "('s, 'v) system \<Rightarrow> nat list \<Rightarrow> int \<Rightarrow> ('s, 'v) system" where
  "setup_devices s devs num_locations =
     (let s1 = s\<lparr>bariera_devices := Barrier_fields (int (length devs))\<rparr> in
      if locks s1 = [] then s1\<lparr>locks := append_locks (nat num_locations) (locks s1)\<rparr>
      else s1)"

text \<open>
  \<open>Device.locks[location].acquire()\<close> (line 213) and \<open>Device.locks[location].release()\<close>
  (line 236) on the list of lock states: the indexing can raise, acquiring a held lock
  blocks, releasing a lock that is not held raises.
\<close>

definition locks_acquire :: "bool list \<Rightarrow> location \<Rightarrow> bool list outcome" where
  "locks_acquire ls loc =
     (case py_index ls loc of
        None \<Rightarrow> Raised IndexError
      | Some i \<Rightarrow> if ls ! i then Blocked else Done (ls[i := True]))"

definition locks_release :: "bool list \<Rightarrow> location \<Rightarrow> bool list outcome" where
  "locks_release ls loc =
     (case py_index ls loc of
        None \<Rightarrow> Raised IndexError
      | Some i \<Rightarrow> if ls ! i then Done (ls[i := False]) else Raised RuntimeError)"

section \<open>The worker loop\<close>

text \<open>
  The two loops over \<open>self.device.neighbours\<close>: \<open>collect\<close> is lines 217-220 (and, on the
  one-element list of the device itself, lines 222-224), \<open>publish\<close> is lines 231-232 (and
  line 234).
\<close>

fun collect :: "(nat \<Rightarrow> ('s, 'v) device) \<Rightarrow> nat list \<Rightarrow> location \<Rightarrow> 'v list \<Rightarrow> 'v list" where
  "collect ds [] loc script_data = script_data"
| "collect ds (n # ns) loc script_data =
     (case fst (get_data (ds n) loc) of
        None \<Rightarrow> collect ds ns loc script_data
      | Some data \<Rightarrow> collect ds ns loc (script_data @ [data]))"

fun publish ::
  "(nat \<Rightarrow> ('s, 'v) device) \<Rightarrow> nat list \<Rightarrow> location \<Rightarrow> 'v \<Rightarrow> (nat \<Rightarrow> ('s, 'v) device)" where
  "publish ds [] loc result = ds"
| "publish ds (n # ns) loc result = publish (ds(n := set_data (ds n) loc result)) ns loc result"

text \<open>
  One step of thread \<open>t\<close>: the statements between two of the program points above.
  A thread that waits for a held lock, has left the loop or has crashed does not move.
  Nothing catches an exception, so a thread that crashes between lines 213 and 236
  leaves its lock held.
\<close>

definition goto :: "('s, 'v) system \<Rightarrow> nat \<Rightarrow> ('s, 'v) pc \<Rightarrow> ('s, 'v) system" where
  "goto s t p = s\<lparr>threads := (threads s)(t := (threads s t)\<lparr>pc := p\<rparr>)\<rparr>"

definition step ::
  "('s \<Rightarrow> 'v list \<Rightarrow> error + 'v) \<Rightarrow> ('s, 'v) system \<Rightarrow> nat \<Rightarrow> ('s, 'v) system" where
  "step run s t =
     (let self = owner (threads s t); d = devices s self in
      case pc (threads s t) of
        Claiming \<Rightarrow>
          (goto s t (Claimed (script_crt d)))
            \<lparr>devices := (devices s)(self := d\<lparr>script_crt := script_crt d + 1\<rparr>)\<rparr>
      | Claimed index \<Rightarrow>
          if index \<ge> nr_scripturi d then goto s t Yielded
          else (case py_getitem (locations d) index of
                  None \<Rightarrow> goto s t (Crashed IndexError)
                | Some loc \<Rightarrow>
                    (case py_getitem (scripts d) index of
                       None \<Rightarrow> goto s t (Crashed IndexError)
                     | Some sc \<Rightarrow> goto s t (Acquiring loc sc)))
      | Acquiring loc sc \<Rightarrow>
          (case locks_acquire (locks s) loc of
             Raised e \<Rightarrow> goto s t (Crashed e)
           | Blocked \<Rightarrow> s
           | Done ls \<Rightarrow> (goto s t (Holding loc sc))\<lparr>locks := ls\<rparr>)
      | Holding loc sc \<Rightarrow>
          (case neighbours d of
             None \<Rightarrow> goto s t (Crashed TypeError)
           | Some ns \<Rightarrow>
               goto s t (Gathered loc sc (collect (devices s) [self] loc
                                            (collect (devices s) ns loc []))))
      | Gathered loc sc script_data \<Rightarrow>
          if script_data \<noteq> [] then
            (case run sc script_data of
               Inl e \<Rightarrow> goto s t (Crashed e)
             | Inr result \<Rightarrow>
                 (case neighbours d of
                    None \<Rightarrow> goto s t (Crashed TypeError)
                  | Some ns \<Rightarrow>
                      (goto s t (Releasing loc))
                        \<lparr>devices := publish (publish (devices s) ns loc result) [self] loc result\<rparr>))
          else goto s t (Releasing loc)
      | Releasing loc \<Rightarrow>
          (case locks_release (locks s) loc of
             Raised e \<Rightarrow> goto s t (Crashed e)
           | Blocked \<Rightarrow> s
           | Done ls \<Rightarrow> (goto s t Claiming)\<lparr>locks := ls\<rparr>)
      | Yielded \<Rightarrow> s
      | Crashed e \<Rightarrow> s)"

text \<open>
  A schedule is the list of the threads that take the next steps, in order: the inner
  loops of one round.
\<close>

fun exec ::
  "('s \<Rightarrow> 'v list \<Rightarrow> error + 'v) \<Rightarrow> ('s, 'v) system \<Rightarrow> nat list \<Rightarrow> ('s, 'v) system" where
  "exec run s [] = s"
| "exec run s (t # sched) = exec run (step run s t) sched"

text \<open>
  The program around the inner loop, as events that can happen between the steps of
  the workers, with the waits of the outer loop left out (so that more interleavings
  are possible than the barriers and events allow):
  \<^item> \<open>Step t\<close>: thread \<open>t\<close> takes its next step in the inner loop;
  \<^item> \<open>Restart t\<close>: a thread that has left the inner loop passes lines 239-247 and
    180-195 and enters the inner loop again, for the next round;
  \<^item> \<open>Supervisor a script loc\<close>: the supervisor calls \<open>assign_script(script, loc)\<close> on
    device \<open>a\<close>;
  \<^item> \<open>Begin a nbs\<close> and \<open>Reset a\<close>: the thread with \<open>first == 1\<close> of device \<open>a\<close> executes
    lines 184-186, respectively lines 242-243.
\<close>

datatype 's event =
    Step nat
  | Restart nat
  | Supervisor nat "'s option" location
  | Begin nat "nat list option"
  | Reset nat

fun fire ::
  "('s \<Rightarrow> 'v list \<Rightarrow> error + 'v) \<Rightarrow> ('s, 'v) system \<Rightarrow> 's event \<Rightarrow> ('s, 'v) system" where
  "fire run s (Step t) = step run s t"
| "fire run s (Restart t) = (case pc (threads s t) of Yielded \<Rightarrow> goto s t Claiming | _ \<Rightarrow> s)"
| "fire run s (Supervisor a script loc) =
     s\<lparr>devices := (devices s)(a := assign_script (devices s a) script loc)\<rparr>"
| "fire run s (Begin a nbs) = s\<lparr>devices := (devices s)(a := begin_round (devices s a) nbs)\<rparr>"
| "fire run s (Reset a) = s\<lparr>devices := (devices s)(a := reset_round (devices s a))\<rparr>"

fun fire_all ::
  "('s \<Rightarrow> 'v list \<Rightarrow> error + 'v) \<Rightarrow> ('s, 'v) system \<Rightarrow> 's event list \<Rightarrow> ('s, 'v) system" where
  "fire_all run s [] = s"
| "fire_all run s (e # es) = fire_all run (fire run s e) es"

text \<open>
  The location whose lock a thread holds: it is between the \<open>acquire\<close> of line 213 and
  the \<open>release\<close> of line 236.
\<close>

definition held_location :: "('s, 'v) pc \<Rightarrow> location option" where
  "held_location p =
     (case p of Holding loc sc \<Rightarrow> Some loc | Gathered loc sc script_data \<Rightarrow> Some loc
      | Releasing loc \<Rightarrow> Some loc | _ \<Rightarrow> None)"

text \<open>
  The invariant of the locking protocol: a thread between \<open>acquire\<close> and \<open>release\<close> has
  a lock that exists and is held, and no other thread is there with the same lock.
\<close>

definition lock_inv :: "('s, 'v) system \<Rightarrow> bool" where
  "lock_inv s \<longleftrightarrow>
     (\<forall>t loc. held_location (pc (threads s t)) = Some loc \<longrightarrow>
        (\<exists>i. py_index (locks s) loc = Some i \<and> locks s ! i \<and>
           (\<forall>t' loc'. held_location (pc (threads s t')) = Some loc' \<longrightarrow>
              py_index (locks s) loc' = Some i \<longrightarrow> t' = t)))"

section \<open>An example: two devices that are neighbours of each other\<close>

text \<open>
  Both devices track location 0, with readings 10 and 20, and have been given the
  script \<open>''avg''\<close> for it; threads with an even number belong to device 0, the others
  to device 1.
\<close>

definition avg :: "string \<Rightarrow> int list \<Rightarrow> error + int" where
  "avg sc xs = (if xs = [] then Inl ScriptError else Inr (sum_list xs div int (length xs)))"

definition dev0 :: "(string, int) device" where
  "dev0 = (assign_script (Device_init 0 [0 \<mapsto> 10]) (Some ''avg'') 0)\<lparr>neighbours := Some [1]\<rparr>"

definition dev1 :: "(string, int) device" where
  "dev1 = (assign_script (Device_init 1 [0 \<mapsto> 20]) (Some ''avg'') 0)\<lparr>neighbours := Some [0]\<rparr>"

definition sys0 :: "(string, int) system" where
  "sys0 = \<lparr>devices = (\<lambda>a. if a = 0 then dev0 else dev1),
           locks = [False], bariera_devices = Barrier_fields 2,
           threads = (\<lambda>t. \<lparr>owner = t mod 2, pc = Claiming\<rparr>)\<rparr>"

section \<open>Properties\<close>

subsection \<open>assign_script\<close>

text \<open>
  Claim C8. \<open>assign_script\<close> with a script that is not \<open>None\<close> appends the script and the
  location to the ends of the two parallel lists that form the assignment list (so the
  list of pairs grows by exactly that pair at its end), counts it, and leaves the
  assignment-complete signal and every other field unchanged; with \<open>None\<close> it sets the
  assignment-complete signal and leaves the assignment list and every other field
  unchanged.
\<close>

theorem assign_script_effect:
  "assign_script d (Some sc) loc =
     d\<lparr>scripts := scripts d @ [sc], locations := locations d @ [loc],
       nr_scripturi := nr_scripturi d + 1\<rparr>
   \<and> timepoint_done (assign_script d (Some sc) loc) = timepoint_done d
   \<and> (length (scripts d) = length (locations d) \<longrightarrow>
        zip (scripts (assign_script d (Some sc) loc))
            (locations (assign_script d (Some sc) loc))
          = zip (scripts d) (locations d) @ [(sc, loc)])
   \<and> assign_script d None loc = d\<lparr>timepoint_done := True\<rparr>
   \<and> timepoint_done (assign_script d None loc)
   \<and> scripts (assign_script d None loc) = scripts d
   \<and> locations (assign_script d None loc) = locations d
   \<and> nr_scripturi (assign_script d None loc) = nr_scripturi d"
  by (simp add: assign_script_def)

theorem assign_script_effect_witness:
  "length (scripts (Device_init 0 [0 \<mapsto> (10::int)] :: (string, int) device))
     = length (locations (Device_init 0 [0 \<mapsto> (10::int)] :: (string, int) device))
   \<and> zip (scripts (assign_script (Device_init 0 [0 \<mapsto> 10] :: (string, int) device) (Some ''avg'') 0))
         (locations (assign_script (Device_init 0 [0 \<mapsto> 10] :: (string, int) device) (Some ''avg'') 0))
       = [(''avg'', 0)]
   \<and> \<not> timepoint_done (assign_script (Device_init 0 [0 \<mapsto> 10] :: (string, int) device) (Some ''avg'') 0)
   \<and> timepoint_done (assign_script (Device_init 0 [0 \<mapsto> 10] :: (string, int) device) None 0)"
  using assign_script_effect [of "Device_init 0 [0 \<mapsto> 10] :: (string, int) device" "''avg''" 0]
  by (simp add: Device_init_def)

subsection \<open>get_data\<close>

text \<open>
  Claim C10. \<open>get_data\<close> returns the device's current reading for a location that is a key
  of its \<open>sensor_data\<close>, and \<open>None\<close> for a location that is not; in both cases the device is
  left as it was.
\<close>

theorem get_data_result:
  "(sensor_data d loc = Some v \<longrightarrow> fst (get_data d loc) = Some v)
   \<and> (loc \<notin> dom (sensor_data d) \<longrightarrow> fst (get_data d loc) = None)
   \<and> snd (get_data d loc) = d"
  by (auto simp: get_data_def)

theorem get_data_result_witness:
  "sensor_data (Device_init 0 [0 \<mapsto> (10::int)] :: (string, int) device) 0 = Some 10
   \<and> fst (get_data (Device_init 0 [0 \<mapsto> (10::int)] :: (string, int) device) 0) = Some 10
   \<and> 5 \<notin> dom (sensor_data (Device_init 0 [0 \<mapsto> (10::int)] :: (string, int) device))
   \<and> fst (get_data (Device_init 0 [0 \<mapsto> (10::int)] :: (string, int) device) 5) = None"
  using get_data_result [of "Device_init 0 [0 \<mapsto> (10::int)] :: (string, int) device" 0 10]
    get_data_result [of "Device_init 0 [0 \<mapsto> (10::int)] :: (string, int) device" 5 10]
  by (simp add: Device_init_def)

subsection \<open>Barrier construction\<close>

text \<open>
  Claim C6, as the code has it. Constructing a barrier never fails, whatever the party
  count, positive or not: the constructor stores the count as it is, as party count and
  as remaining count (the class attribute \<open>bariera_devices = Barrier()\<close> itself builds one
  with the default count 0).
\<close>

theorem Barrier_init_succeeds:
  "Barrier_init n = Inr \<lparr>num_threads = n, count_threads = n, waiting = []\<rparr>"
  by (simp add: Barrier_init_def Barrier_fields_def)

theorem Barrier_init_zero_counterexample:
  "Barrier_init 0 = Inr \<lparr>num_threads = 0, count_threads = 0, waiting = []\<rparr>
   \<and> \<not> isl (Barrier_init (- 3))"
  by (simp add: Barrier_init_def Barrier_fields_def)

subsection \<open>Barrier cycles\<close>

text \<open>
  A thread that arrives while the counter is above its number of predecessors blocks;
  the arrival that finds the counter at 1 releases everybody and restores the barrier.
  A barrier whose counter is zero or negative, as one built for a party count that is
  not positive, releases nobody, however many threads arrive.
\<close>

lemma wait_all_append:
  "wait_all b (xs @ ys) =
     (case wait_all b xs of (b1, r1) \<Rightarrow>
        (case wait_all b1 ys of (b2, r2) \<Rightarrow> (b2, r1 @ r2)))"
  by (induction xs arbitrary: b) (auto split: prod.splits)

lemma wait_all_blocking:
  "int (length ts) < count_threads b \<Longrightarrow>
   wait_all b ts =
     (b\<lparr>count_threads := count_threads b - int (length ts), waiting := waiting b @ ts\<rparr>,
      replicate (length ts) [])"
proof (induction ts arbitrary: b)
  case Nil
  then show ?case by simp
next
  case (Cons t ts)
  let ?b1 = "b\<lparr>count_threads := count_threads b - 1, waiting := waiting b @ [t]\<rparr>"
  from Cons.prems have w: "wait b t = (?b1, [])"
    by (simp add: wait_def Let_def)
  from Cons.prems have "int (length ts) < count_threads ?b1" by simp
  from Cons.IH [OF this] w show ?case by simp
qed

lemma wait_all_nonpositive:
  "count_threads b \<le> 0 \<Longrightarrow>
   wait_all b ts =
     (b\<lparr>count_threads := count_threads b - int (length ts), waiting := waiting b @ ts\<rparr>,
      replicate (length ts) [])"
proof (induction ts arbitrary: b)
  case Nil
  then show ?case by simp
next
  case (Cons t ts)
  let ?b1 = "b\<lparr>count_threads := count_threads b - 1, waiting := waiting b @ [t]\<rparr>"
  from Cons.prems have w: "wait b t = (?b1, [])"
    by (simp add: wait_def Let_def)
  from Cons.prems have "count_threads ?b1 \<le> 0" by simp
  from Cons.IH [OF this] w show ?case by simp
qed

lemma wait_last:
  "count_threads b = 1 \<Longrightarrow>
   wait b t = (b\<lparr>count_threads := num_threads b, waiting := []\<rparr>, waiting b @ [t])"
  by (simp add: wait_def Let_def)

lemma wait_all_cycle:
  assumes "count_threads b = num_threads b" "waiting b = []"
    and "int (length c) = num_threads b" "c \<noteq> []"
  shows "wait_all b c = (b, replicate (length c - 1) [] @ [c])"
proof -
  from assms(4) obtain ts t where c: "c = ts @ [t]"
    by (metis rev_exhaust)
  let ?b1 = "b\<lparr>count_threads := count_threads b - int (length ts), waiting := waiting b @ ts\<rparr>"
  from assms c have "int (length ts) < count_threads b" by simp
  then have 1: "wait_all b ts = (?b1, replicate (length ts) [])"
    by (rule wait_all_blocking)
  from assms c have "count_threads ?b1 = 1" by simp
  then have 2: "wait ?b1 t = (?b1\<lparr>count_threads := num_threads ?b1, waiting := []\<rparr>, waiting ?b1 @ [t])"
    by (rule wait_last)
  from assms have 3: "?b1\<lparr>count_threads := num_threads ?b1, waiting := []\<rparr> = b" by simp
  show ?thesis
    unfolding c wait_all_append 1 using 2 3 assms(2) by simp
qed

lemma wait_all_cycles:
  assumes "count_threads b = num_threads b" "waiting b = []" "1 \<le> num_threads b"
    and "\<forall>c \<in> set cs. int (length c) = num_threads b"
  shows "wait_all b (concat cs) = (b, concat (map (\<lambda>c. replicate (length c - 1) [] @ [c]) cs))"
  using assms(4)
proof (induction cs)
  case Nil
  then show ?case by simp
next
  case (Cons c cs)
  then have len: "int (length c) = num_threads b" by simp
  with assms(3) have "c \<noteq> []" by auto
  with assms(1,2) len have "wait_all b c = (b, replicate (length c - 1) [] @ [c])"
    by (intro wait_all_cycle)
  moreover from Cons have "wait_all b (concat cs) = (b, concat (map (\<lambda>c. replicate (length c - 1) [] @ [c]) cs))"
    by simp
  ultimately show ?case by (simp add: wait_all_append)
qed

text \<open>Every sequence of arrivals is a sequence of full cycles and an unfinished one.\<close>

lemma arrivals_split:
  assumes "0 < n"
  shows "\<exists>cs rest. ts = concat cs @ rest \<and> (\<forall>c \<in> set cs. length c = n) \<and> length rest < n"
proof (induction ts rule: length_induct)
  case (1 ts)
  show ?case
  proof (cases "length ts < n")
    case True
    then have "ts = concat [] @ ts \<and> (\<forall>c \<in> set []. length c = n) \<and> length ts < n" by simp
    then show ?thesis by blast
  next
    case False
    with assms have "length (drop n ts) < length ts" by simp
    with 1 obtain cs rest where d: "drop n ts = concat cs @ rest"
      "\<forall>c \<in> set cs. length c = n" "length rest < n" by blast
    from False have "length (take n ts) = n" by simp
    with d have "ts = concat (take n ts # cs) @ rest \<and> (\<forall>c \<in> set (take n ts # cs). length c = n) \<and> length rest < n"
      by (metis append.assoc append_take_drop_id concat.simps(2) set_ConsD)
    then show ?thesis by blast
  qed
qed

text \<open>
  Claim C2. Take a barrier built for \<open>N \<ge> 1\<close> parties and any sequence of arrivals, cut
  into full cycles of \<open>N\<close> arrivals (\<open>cs\<close>) and an unfinished cycle (\<open>rest\<close>). Then the
  first \<open>N - 1\<close> arrivals of every full cycle release nobody, its \<open>N\<close>th arrival releases
  exactly the \<open>N\<close> threads of that cycle and no thread of another cycle, the arrivals of
  the unfinished cycle release nobody and are the threads left waiting, and the remaining
  count is \<open>N\<close> minus the length of the unfinished cycle: \<open>N\<close> again after each full cycle.
  An arrival is the body of \<open>wait\<close> under the condition's lock, and \<open>notify_all\<close> wakes
  the threads waiting at that moment and no other.
\<close>

theorem barrier_cycles:
  assumes "1 \<le> N" and "Barrier_init N = Inr b"
    and "\<forall>c \<in> set cs. int (length c) = N" and "int (length rest) < N"
  shows "wait_all b (concat cs @ rest) =
           (\<lparr>num_threads = N, count_threads = N - int (length rest), waiting = rest\<rparr>,
            concat (map (\<lambda>c. replicate (length c - 1) [] @ [c]) cs)
              @ replicate (length rest) [])"
proof -
  from assms(2) have b: "b = \<lparr>num_threads = N, count_threads = N, waiting = []\<rparr>"
    by (simp add: Barrier_init_def Barrier_fields_def)
  have 1: "wait_all b (concat cs) = (b, concat (map (\<lambda>c. replicate (length c - 1) [] @ [c]) cs))"
    using assms(1,3) by (intro wait_all_cycles) (simp_all add: b)
  have 2: "wait_all b rest =
     (b\<lparr>count_threads := count_threads b - int (length rest), waiting := waiting b @ rest\<rparr>,
      replicate (length rest) [])"
    using assms(4) by (intro wait_all_blocking) (simp add: b)
  show ?thesis
    unfolding wait_all_append 1 using 2 by (simp add: b)
qed

theorem barrier_cycles_witness:
  "Barrier_init 3 = Inr (Barrier_fields 3)
   \<and> wait_all (Barrier_fields 3) [1, 2, 3, 4, 5, 6, 7] =
       (\<lparr>num_threads = 3, count_threads = 2, waiting = [7]\<rparr>,
        [[], [], [1, 2, 3], [], [], [4, 5, 6], []])"
proof -
  have b: "Barrier_init 3 = Inr (Barrier_fields 3)"
    by (simp add: Barrier_init_def)
  have cs: "\<forall>c \<in> set [[1, 2, 3], [4, 5, 6::nat]]. int (length c) = 3"
    by simp
  have r: "int (length [7::nat]) < 3"
    by simp
  from barrier_cycles [of 3, OF _ b cs r] b show ?thesis
    by simp
qed

subsection \<open>Mutual exclusion per location\<close>

lemma py_index_less: "py_index xs l = Some i \<Longrightarrow> i < length xs"
  by (auto simp: py_index_def Let_def split: if_splits)

lemma py_index_length_cong: "length xs = length ys \<Longrightarrow> py_index xs l = py_index ys l"
  by (simp add: py_index_def)

lemma py_index_update [simp]: "py_index (xs[i := v]) l = py_index xs l"
  by (simp add: py_index_def)

lemma threads_goto [simp]:
  "threads (goto s t p) t' = (if t' = t then (threads s t)\<lparr>pc := p\<rparr> else threads s t')"
  by (simp add: goto_def)

lemma locks_goto [simp]: "locks (goto s t p) = locks s"
  by (simp add: goto_def)

lemma devices_goto [simp]: "devices (goto s t p) = devices s"
  by (simp add: goto_def)

lemma lock_inv_frame:
  assumes "lock_inv s" and "locks s' = locks s"
    and "\<forall>t'. t' \<noteq> t \<longrightarrow> pc (threads s' t') = pc (threads s t')"
    and "held_location (pc (threads s' t)) = held_location (pc (threads s t))
         \<or> held_location (pc (threads s' t)) = None"
  shows "lock_inv s'"
proof -
  have sub: "held_location (pc (threads s' u)) = Some l \<Longrightarrow>
             held_location (pc (threads s u)) = Some l" for u l
    using assms(3,4) by (cases "u = t") auto
  show ?thesis
    unfolding lock_inv_def
  proof (intro allI impI)
    fix u loc assume h: "held_location (pc (threads s' u)) = Some loc"
    from sub [OF h] assms(1) obtain i where i: "py_index (locks s) loc = Some i" "locks s ! i"
      "\<forall>t' loc'. held_location (pc (threads s t')) = Some loc' \<longrightarrow>
              py_index (locks s) loc' = Some i \<longrightarrow> t' = u"
      unfolding lock_inv_def by blast
    have "\<forall>t' loc'. held_location (pc (threads s' t')) = Some loc' \<longrightarrow>
              py_index (locks s') loc' = Some i \<longrightarrow> t' = u"
      using i(3) sub assms(2) by auto
    with i(1,2) assms(2)
    show "\<exists>i. py_index (locks s') loc = Some i \<and> locks s' ! i \<and>
           (\<forall>t' loc'. held_location (pc (threads s' t')) = Some loc' \<longrightarrow>
              py_index (locks s') loc' = Some i \<longrightarrow> t' = u)"
      by auto
  qed
qed

lemma lock_inv_acquire:
  assumes "lock_inv s" and "pc (threads s t) = Acquiring loc sc"
    and "locks_acquire (locks s) loc = Done ls"
  shows "lock_inv ((goto s t (Holding loc sc))\<lparr>locks := ls\<rparr>)"
proof -
  from assms(3) obtain i where i: "py_index (locks s) loc = Some i" "\<not> locks s ! i"
    "ls = (locks s)[i := True]"
    by (auto simp: locks_acquire_def split: option.splits if_splits)
  have il: "i < length (locks s)" using i(1) by (rule py_index_less)
  let ?s' = "(goto s t (Holding loc sc))\<lparr>locks := ls\<rparr>"
  have free: "held_location (pc (threads s u)) = Some l \<Longrightarrow> py_index (locks s) l = Some i \<Longrightarrow> False" for u l
  proof -
    assume a: "held_location (pc (threads s u)) = Some l" "py_index (locks s) l = Some i"
    from assms(1) a(1) obtain k where "py_index (locks s) l = Some k" "locks s ! k"
      unfolding lock_inv_def by blast
    with a(2) i(2) show False by simp
  qed
  have old: "held_location (pc (threads ?s' u)) = Some l \<Longrightarrow> u \<noteq> t \<Longrightarrow>
             held_location (pc (threads s u)) = Some l" for u l
    by simp
  have tnew: "held_location (pc (threads ?s' t)) = Some loc"
    by (simp add: held_location_def)
  have tnone: "held_location (pc (threads s t)) = None"
    using assms(2) by (simp add: held_location_def)
  show ?thesis
    unfolding lock_inv_def
  proof (intro allI impI)
    fix u l assume h: "held_location (pc (threads ?s' u)) = Some l"
    show "\<exists>j. py_index (locks ?s') l = Some j \<and> locks ?s' ! j \<and>
           (\<forall>t' loc'. held_location (pc (threads ?s' t')) = Some loc' \<longrightarrow>
              py_index (locks ?s') loc' = Some j \<longrightarrow> t' = u)"
    proof (cases "u = t")
      case True
      with h tnew have l: "l = loc" by simp
      have uniq: "\<forall>t' loc'. held_location (pc (threads ?s' t')) = Some loc' \<longrightarrow>
              py_index (locks ?s') loc' = Some i \<longrightarrow> t' = t"
      proof (intro allI impI)
        fix t' loc' assume a: "held_location (pc (threads ?s' t')) = Some loc'"
          "py_index (locks ?s') loc' = Some i"
        show "t' = t"
        proof (rule ccontr)
          assume "t' \<noteq> t"
          with a(1) have "held_location (pc (threads s t')) = Some loc'" by simp
          from free [OF this] a(2) i(3) show False by simp
        qed
      qed
      have p1: "py_index (locks ?s') l = Some i" using l i(1,3) by simp
      have p2: "locks ?s' ! i" using i(3) il by simp
      from p1 p2 uniq show ?thesis unfolding True by blast
    next
      case False
      with h have hs: "held_location (pc (threads s u)) = Some l" by simp
      with assms(1) obtain j where j: "py_index (locks s) l = Some j" "locks s ! j"
        "\<forall>t' loc'. held_location (pc (threads s t')) = Some loc' \<longrightarrow>
              py_index (locks s) loc' = Some j \<longrightarrow> t' = u"
        unfolding lock_inv_def by blast
      from free [OF hs] j(1) have ji: "j \<noteq> i" by auto
      have "\<forall>t' loc'. held_location (pc (threads ?s' t')) = Some loc' \<longrightarrow>
              py_index (locks ?s') loc' = Some j \<longrightarrow> t' = u"
      proof (intro allI impI)
        fix t' loc' assume a: "held_location (pc (threads ?s' t')) = Some loc'"
          "py_index (locks ?s') loc' = Some j"
        show "t' = u"
        proof (cases "t' = t")
          case True
          with a(1) tnew have "loc' = loc" by simp
          with a(2) i(1,3) ji show ?thesis by simp
        next
          case False
          with a(1) have "held_location (pc (threads s t')) = Some loc'" by simp
          with j(3) a(2) i(3) show ?thesis by simp
        qed
      qed
      with j(1,2) ji i(3) show ?thesis by simp
    qed
  qed
qed

lemma lock_inv_release:
  assumes "lock_inv s" and "pc (threads s t) = Releasing loc"
    and "locks_release (locks s) loc = Done ls"
  shows "lock_inv ((goto s t Claiming)\<lparr>locks := ls\<rparr>)"
proof -
  from assms(3) obtain i where i: "py_index (locks s) loc = Some i" "ls = (locks s)[i := False]"
    by (auto simp: locks_release_def split: option.splits if_splits)
  let ?s' = "(goto s t Claiming)\<lparr>locks := ls\<rparr>"
  have tin: "held_location (pc (threads s t)) = Some loc"
    using assms(2) by (simp add: held_location_def)
  have tout: "held_location (pc (threads ?s' t)) = None"
    by (simp add: held_location_def)
  show ?thesis
    unfolding lock_inv_def
  proof (intro allI impI)
    fix u l assume h: "held_location (pc (threads ?s' u)) = Some l"
    with tout have ut: "u \<noteq> t" by auto
    with h have hs: "held_location (pc (threads s u)) = Some l" by simp
    with assms(1) obtain j where j: "py_index (locks s) l = Some j" "locks s ! j"
        "\<forall>t' loc'. held_location (pc (threads s t')) = Some loc' \<longrightarrow>
              py_index (locks s) loc' = Some j \<longrightarrow> t' = u"
      unfolding lock_inv_def by blast
    from j(3) tin i(1) ut have ji: "j \<noteq> i" by auto
    have "\<forall>t' loc'. held_location (pc (threads ?s' t')) = Some loc' \<longrightarrow>
              py_index (locks ?s') loc' = Some j \<longrightarrow> t' = u"
    proof (intro allI impI)
      fix t' loc' assume a: "held_location (pc (threads ?s' t')) = Some loc'"
          "py_index (locks ?s') loc' = Some j"
      from a(1) tout have "t' \<noteq> t" by auto
      with a(1) have "held_location (pc (threads s t')) = Some loc'" by simp
      with j(3) a(2) i(2) show "t' = u" by simp
    qed
    with j(1,2) ji i(2)
    show "\<exists>j. py_index (locks ?s') l = Some j \<and> locks ?s' ! j \<and>
           (\<forall>t' loc'. held_location (pc (threads ?s' t')) = Some loc' \<longrightarrow>
              py_index (locks ?s') loc' = Some j \<longrightarrow> t' = u)"
      by simp
  qed
qed

lemma lock_inv_goto:
  assumes "lock_inv s"
    and "held_location p = held_location (pc (threads s t)) \<or> held_location p = None"
  shows "lock_inv (goto s t p)"
  using assms(1) by (rule lock_inv_frame [where t = t]) (use assms(2) in auto)

lemma lock_inv_goto_devices:
  assumes "lock_inv s"
    and "held_location p = held_location (pc (threads s t)) \<or> held_location p = None"
  shows "lock_inv ((goto s t p)\<lparr>devices := ds\<rparr>)"
  using assms(1) by (rule lock_inv_frame [where t = t]) (use assms(2) in auto)

lemma lock_inv_step:
  assumes "lock_inv s"
  shows "lock_inv (step run s t)"
proof (cases "pc (threads s t)")
  case Claiming
  then show ?thesis
    using assms by (simp add: step_def Let_def lock_inv_goto_devices held_location_def)
next
  case (Claimed index)
  then show ?thesis
    using assms
    by (simp add: step_def Let_def lock_inv_goto held_location_def split: option.splits)
next
  case (Acquiring loc sc)
  then show ?thesis
    using assms
    by (simp add: step_def Let_def lock_inv_goto lock_inv_acquire held_location_def
        split: outcome.splits)
next
  case (Holding loc sc)
  then show ?thesis
    using assms
    by (simp add: step_def Let_def lock_inv_goto held_location_def split: option.splits)
next
  case (Gathered loc sc script_data)
  then show ?thesis
    using assms
    by (simp add: step_def Let_def lock_inv_goto lock_inv_goto_devices held_location_def
        split: option.splits sum.splits)
next
  case (Releasing loc)
  then show ?thesis
    using assms
    by (simp add: step_def Let_def lock_inv_goto lock_inv_release held_location_def
        split: outcome.splits)
next
  case Yielded
  then show ?thesis using assms by (simp add: step_def Let_def)
next
  case (Crashed e)
  then show ?thesis using assms by (simp add: step_def Let_def)
qed

lemma lock_inv_devices: "lock_inv s \<Longrightarrow> lock_inv (s\<lparr>devices := ds\<rparr>)"
  by (simp add: lock_inv_def)

lemma lock_inv_fire: "lock_inv s \<Longrightarrow> lock_inv (fire run s e)"
  by (cases e)
    (auto simp: lock_inv_step lock_inv_devices lock_inv_goto held_location_def split: pc.splits)

lemma lock_inv_fire_all: "lock_inv s \<Longrightarrow> lock_inv (fire_all run s es)"
  by (induction es arbitrary: s) (simp_all add: lock_inv_fire)

lemma lock_inv_initial: "\<forall>t. held_location (pc (threads s t)) = None \<Longrightarrow> lock_inv s"
  by (simp add: lock_inv_def)

lemma sensor_data_set_data_other:
  "l \<noteq> loc \<Longrightarrow> sensor_data (set_data d loc v) l = sensor_data d l"
  by (simp add: set_data_def)

lemma dom_set_data: "dom (sensor_data (set_data d loc v)) = dom (sensor_data d)"
  by (auto simp: set_data_def)

lemma script_crt_set_data: "script_crt (set_data d loc v) = script_crt d"
  by (simp add: set_data_def)

lemma publish_other:
  "l \<noteq> loc \<Longrightarrow> sensor_data (publish ds ns loc v a) l = sensor_data (ds a) l"
  by (induction ns arbitrary: ds) (simp_all add: sensor_data_set_data_other)

lemma dom_publish: "dom (sensor_data (publish ds ns loc v a)) = dom (sensor_data (ds a))"
  by (induction ns arbitrary: ds) (simp_all add: dom_set_data)

lemma script_crt_publish: "script_crt (publish ds ns loc v a) = script_crt (ds a)"
  by (induction ns arbitrary: ds) (simp_all add: script_crt_set_data)

lemma dom_step: "dom (sensor_data (devices (step run s t) a)) = dom (sensor_data (devices s a))"
  by (cases "pc (threads s t)")
    (simp_all add: step_def Let_def dom_publish dom_set_data split: option.splits sum.splits outcome.splits)

lemma dom_fire: "dom (sensor_data (devices (fire run s e) a)) = dom (sensor_data (devices s a))"
  by (cases e)
    (auto simp: dom_step assign_script_def begin_round_def reset_round_def
      split: pc.splits option.splits)

lemma dom_fire_all:
  "dom (sensor_data (devices (fire_all run s es) a)) = dom (sensor_data (devices s a))"
  by (induction es arbitrary: s) (simp_all add: dom_fire)

lemma step_write:
  assumes "sensor_data (devices (step run s t) a) l \<noteq> sensor_data (devices s a) l"
  shows "\<exists>sc script_data. pc (threads s t) = Gathered l sc script_data"
proof (cases "pc (threads s t)")
  case (Gathered loc sc script_data)
  have "l = loc"
  proof (rule ccontr)
    assume "l \<noteq> loc"
    then have "sensor_data (devices (step run s t) a) l = sensor_data (devices s a) l"
      using Gathered
      by (simp add: step_def Let_def publish_other sensor_data_set_data_other split: option.splits sum.splits)
    with assms show False by simp
  qed
  with Gathered show ?thesis by simp
qed (use assms in \<open>simp_all add: step_def Let_def split: option.splits outcome.splits if_splits\<close>)

lemma fire_write:
  assumes "sensor_data (devices (fire run s e) a) l \<noteq> sensor_data (devices s a) l"
  shows "\<exists>t sc script_data. e = Step t \<and> pc (threads s t) = Gathered l sc script_data"
  using assms step_write [of run s _ a l]
  by (cases e)
    (auto simp: assign_script_def begin_round_def reset_round_def
      split: pc.splits option.splits if_splits)

lemma step_gathered:
  assumes "pc (threads (step run s t) u) = Gathered l sc script_data"
  shows "pc (threads s u) = Gathered l sc script_data \<or> (u = t \<and> pc (threads s t) = Holding l sc)"
  using assms
  by (cases "pc (threads s t)")
    (auto simp: step_def Let_def split: option.splits outcome.splits if_splits sum.splits)

lemma script_crt_step: "script_crt (devices s a) \<le> script_crt (devices (step run s t) a)"
  by (cases "pc (threads s t)")
    (simp_all add: step_def Let_def script_crt_publish script_crt_set_data split: option.splits sum.splits outcome.splits)

lemma sys0_run:
  "pc (threads (fire_all avg sys0
         [Step 0, Step 0, Step 0, Step 1, Step 1, Step 1, Step 1, Step 0]) 0)
     = Gathered 0 ''avg'' [20, 10]"
  by (simp add: sys0_def dev0_def dev1_def step_def goto_def Let_def assign_script_def Device_init_def
     py_getitem_def py_index_def locks_acquire_def get_data_def)

text \<open>
  Claim C1. Start anywhere with no thread between \<open>acquire\<close> and \<open>release\<close> (any number
  of devices and threads, any lock states, any data) and let the threads take steps in
  any order, over any number of rounds, with the supervisor assigning scripts at any
  time. Then in the state reached: no two threads are between the \<open>acquire\<close> and the
  \<open>release\<close> of the same location; a thread that is there has a lock that exists and is
  held; whatever changes some device's reading for a location is a step of a thread that
  holds that location's lock; and a thread has gathered the readings of a location only
  while holding its lock.
\<close>

theorem mutual_exclusion:
  assumes "\<forall>t. held_location (pc (threads s0 t)) = None"
  shows "(\<forall>t1 t2 L. held_location (pc (threads (fire_all run s0 es) t1)) = Some L \<longrightarrow>
            held_location (pc (threads (fire_all run s0 es) t2)) = Some L \<longrightarrow> t1 = t2)
       \<and> (\<forall>t L. held_location (pc (threads (fire_all run s0 es) t)) = Some L \<longrightarrow>
            (\<exists>i. py_index (locks (fire_all run s0 es)) L = Some i
                 \<and> locks (fire_all run s0 es) ! i))
       \<and> (\<forall>e a L. sensor_data (devices (fire run (fire_all run s0 es) e) a) L
                     \<noteq> sensor_data (devices (fire_all run s0 es) a) L \<longrightarrow>
            (\<exists>t. e = Step t \<and> held_location (pc (threads (fire_all run s0 es) t)) = Some L))
       \<and> (\<forall>t L sc script_data.
            pc (threads (step run (fire_all run s0 es) t) t) = Gathered L sc script_data \<longrightarrow>
            held_location (pc (threads (fire_all run s0 es) t)) = Some L)"
proof -
  let ?s = "fire_all run s0 es"
  have inv: "lock_inv ?s"
    using assms by (intro lock_inv_fire_all lock_inv_initial)
  have 1: "\<forall>t1 t2 L. held_location (pc (threads ?s t1)) = Some L \<longrightarrow>
            held_location (pc (threads ?s t2)) = Some L \<longrightarrow> t1 = t2"
    using inv unfolding lock_inv_def by metis
  have 2: "\<forall>t L. held_location (pc (threads ?s t)) = Some L \<longrightarrow>
            (\<exists>i. py_index (locks ?s) L = Some i \<and> locks ?s ! i)"
    using inv unfolding lock_inv_def by blast
  have 3: "\<forall>e a L. sensor_data (devices (fire run ?s e) a) L \<noteq> sensor_data (devices ?s a) L \<longrightarrow>
            (\<exists>t. e = Step t \<and> held_location (pc (threads ?s t)) = Some L)"
    using fire_write [of run ?s] by (fastforce simp: held_location_def)
  have 4: "\<forall>t L sc script_data.
            pc (threads (step run ?s t) t) = Gathered L sc script_data \<longrightarrow>
            held_location (pc (threads ?s t)) = Some L"
    using step_gathered [of run ?s] by (fastforce simp: held_location_def)
  from 1 2 3 4 show ?thesis by blast
qed

theorem mutual_exclusion_witness:
  "(\<forall>t. held_location (pc (threads sys0 t)) = None)
   \<and> held_location (pc (threads (fire_all avg sys0
        [Step 0, Step 0, Step 0, Step 1, Step 1, Step 1, Step 1, Step 0]) 0)) = Some 0
   \<and> held_location (pc (threads (fire_all avg sys0
        [Step 0, Step 0, Step 0, Step 1, Step 1, Step 1, Step 1, Step 0]) 1)) \<noteq> Some 0"
proof -
  let ?es = "[Step 0, Step 0, Step 0, Step 1, Step 1, Step 1, Step 1, Step 0]"
  have init: "\<forall>t. held_location (pc (threads sys0 t)) = None"
    by (simp add: sys0_def held_location_def)
  have h0: "held_location (pc (threads (fire_all avg sys0 ?es) 0)) = Some 0"
    unfolding sys0_run by (simp add: held_location_def)
  from mutual_exclusion [OF init, of avg ?es] h0
  have "held_location (pc (threads (fire_all avg sys0 ?es) 1)) \<noteq> Some 0"
    by (metis zero_neq_one)
  with init h0 show ?thesis by blast
qed

subsection \<open>The lock registry\<close>

lemma append_locks_replicate: "append_locks k ls = ls @ replicate k False"
  by (induction k arbitrary: ls) (simp_all add: replicate_append_same)

lemma locks_setup_devices:
  "locks (setup_devices s devs n) = (if locks s = [] then replicate (nat n) False else locks s)"
  by (simp add: setup_devices_def Let_def append_locks_replicate)

text \<open>
  Claim C7. A setup call that finds the registry empty fills it with one fresh (free)
  lock per location, so its size is the number of locations; a setup call that finds a
  registry leaves it as it is, whatever number of locations it is given; hence a second
  setup call never changes what the first one built: the registry is neither replaced
  nor extended.
\<close>

theorem setup_devices_registry:
  "(locks s = [] \<and> 0 \<le> n \<longrightarrow>
      int (length (locks (setup_devices s devs n))) = n
      \<and> locks (setup_devices s devs n) = replicate (nat n) False)
   \<and> (locks s \<noteq> [] \<longrightarrow> locks (setup_devices s devs n) = locks s)
   \<and> locks (setup_devices (setup_devices s devs n) devs' n) = locks (setup_devices s devs n)
   \<and> (0 < n \<longrightarrow>
        locks (setup_devices (setup_devices s devs n) devs' m) = locks (setup_devices s devs n))"
  by (auto simp: locks_setup_devices)

theorem setup_devices_registry_witness:
  "locks (sys0\<lparr>locks := []\<rparr>) = []
   \<and> locks (setup_devices (sys0\<lparr>locks := []\<rparr>) [0, 1] 3) = [False, False, False]
   \<and> locks (setup_devices (setup_devices (sys0\<lparr>locks := []\<rparr>) [0, 1] 3) [0, 1] 5)
       = [False, False, False]
   \<and> locks (setup_devices sys0 [0, 1] 3) = [False]"
  using setup_devices_registry [of "sys0\<lparr>locks := []\<rparr>" 3 "[0, 1]" "[0, 1]" 5]
    setup_devices_registry [of sys0 3 "[0, 1]" "[0, 1]" 5]
  by (simp add: sys0_def numeral_3_eq_3)

text \<open>
  Claim C5, as the code has it. Acquiring the lock of a location that is at or above
  the registry size, or below minus the registry size, raises \<open>IndexError\<close> at the call
  and changes no lock: the thread ends there. For a negative location from minus the
  size up to -1 nothing is raised: Python counts from the end of the list, and the call
  is the acquisition of the lock of location size + location.
\<close>

theorem acquire_index:
  "(int (length ls) \<le> loc \<or> loc < - int (length ls) \<longrightarrow>
      locks_acquire ls loc = Raised IndexError)
   \<and> (- int (length ls) \<le> loc \<and> loc < 0 \<longrightarrow>
        locks_acquire ls loc = locks_acquire ls (int (length ls) + loc)
        \<and> locks_acquire ls loc \<noteq> Raised IndexError)
   \<and> (pc (threads s t) = Acquiring loc sc
        \<and> (int (length (locks s)) \<le> loc \<or> loc < - int (length (locks s))) \<longrightarrow>
        step run s t = goto s t (Crashed IndexError))"
  by (auto simp: locks_acquire_def py_index_def step_def Let_def)

theorem acquire_index_witness:
  "locks_acquire [False, False] 2 = Raised IndexError
   \<and> locks_acquire [False, False] (- 3) = Raised IndexError
   \<and> locks_acquire [False, False] (- 1) = locks_acquire [False, False] 1
   \<and> step avg (goto (sys0\<lparr>locks := [False, False]\<rparr>) 0 (Acquiring 2 ''avg'')) 0
       = goto (goto (sys0\<lparr>locks := [False, False]\<rparr>) 0 (Acquiring 2 ''avg'')) 0 (Crashed IndexError)"
  using acquire_index [of "[False, False]" 2 "goto (sys0\<lparr>locks := [False, False]\<rparr>) 0 (Acquiring 2 ''avg'')" 0 "''avg''" avg]
    acquire_index [of "[False, False]" "- 3" sys0 0 "''avg''" avg]
    acquire_index [of "[False, False]" "- 1" sys0 0 "''avg''" avg]
  by (simp add: goto_def)

theorem acquire_negative_counterexample:
  "locks_acquire [False, False] (- 1) = Done [False, True]
   \<and> locks_acquire [False, False] 1 = Done [False, True]"
  by (simp add: locks_acquire_def py_index_def)

subsection \<open>set_data and the keys of sensor_data\<close>

text \<open>
  Claim C9. \<open>set_data\<close> on a location that is not a key of \<open>sensor_data\<close> leaves the
  device as it is; on a key it replaces that reading and nothing else, so every other
  location keeps its reading; and the key set of every device's \<open>sensor_data\<close> is the
  same after \<open>set_data\<close>, after \<open>get_data\<close>, after \<open>setup_devices\<close>, and after any
  sequence of worker steps, script assignments and round transitions.
\<close>

theorem set_data_frame:
  "(loc \<notin> dom (sensor_data d) \<longrightarrow> set_data d loc v = d)
   \<and> (loc \<in> dom (sensor_data d) \<longrightarrow>
        set_data d loc v = d\<lparr>sensor_data := (sensor_data d)(loc \<mapsto> v)\<rparr>)
   \<and> (\<forall>l. l \<noteq> loc \<longrightarrow> sensor_data (set_data d loc v) l = sensor_data d l)
   \<and> dom (sensor_data (set_data d loc v)) = dom (sensor_data d)
   \<and> dom (sensor_data (snd (get_data d loc))) = dom (sensor_data d)
   \<and> dom (sensor_data (devices (setup_devices s devs n) a)) = dom (sensor_data (devices s a))
   \<and> dom (sensor_data (devices (fire_all run s es) a)) = dom (sensor_data (devices s a))"
  by (auto simp: set_data_def get_data_def dom_fire_all setup_devices_def Let_def
      split: option.splits)

theorem set_data_frame_witness:
  "5 \<notin> dom (sensor_data dev0) \<and> set_data dev0 5 7 = dev0
   \<and> 0 \<in> dom (sensor_data dev0) \<and> sensor_data (set_data dev0 0 7) 0 = Some 7
   \<and> sensor_data (set_data dev0 0 7) 5 = sensor_data dev0 5
   \<and> dom (sensor_data (devices (fire_all avg sys0
        [Step 0, Step 0, Step 0, Step 0, Step 0, Supervisor 1 (Some ''avg'') 5, Reset 1,
         Begin 1 None, Restart 0]) 1)) = {0}"
  using set_data_frame [where loc = 5 and d = dev0 and v = 7 and s = sys0 and devs = "[]"
      and n = 0 and a = 1 and run = avg
      and es = "[Step 0, Step 0, Step 0, Step 0, Step 0, Supervisor 1 (Some ''avg'') 5, Reset 1,
         Begin 1 None, Restart 0]"]
    set_data_frame [where loc = 0 and d = dev0 and v = 7 and s = sys0 and devs = "[]"
      and n = 0 and a = 1 and run = avg
      and es = "[Step 0, Step 0, Step 0, Step 0, Step 0, Supervisor 1 (Some ''avg'') 5, Reset 1,
         Begin 1 None, Restart 0]"]
  by (simp add: dev0_def dev1_def sys0_def assign_script_def Device_init_def)

subsection \<open>The claim cursor\<close>

lemma sys0_thread0_round:
  "pc (threads (exec avg sys0 [0, 0, 0, 0, 0, 0, 0]) 0) = Claimed 1
   \<and> script_crt (devices (exec avg sys0 [0, 0, 0, 0, 0, 0, 0]) 0) = 2
   \<and> nr_scripturi (devices (exec avg sys0 [0, 0, 0, 0, 0, 0, 0]) 0) = 1
   \<and> scripts (devices (exec avg sys0 [0, 0, 0, 0, 0, 0, 0]) 0) = [''avg'']
   \<and> owner (threads (exec avg sys0 [0, 0, 0, 0, 0, 0, 0]) 0) = 0
   \<and> locks (exec avg sys0 [0, 0, 0, 0, 0, 0, 0]) = [False]"
  by (simp add: sys0_def dev0_def dev1_def step_def goto_def Let_def assign_script_def
      Device_init_def py_getitem_def py_index_def locks_acquire_def locks_release_def
      get_data_def set_data_def avg_def)

text \<open>
  Claim C3, as the code has it. A claim (lines 199-202) adds exactly one to
  \<open>script_crt\<close> and hands the worker the value before; no step of any thread lowers
  the cursor. The worker processes the claimed index only when it is below
  \<open>nr_scripturi\<close>. When the claimed index is at or past \<open>nr_scripturi\<close> the worker leaves
  the loop: this step changes nothing but its own program point (no lock, no data), and
  it does nothing more in the round. The cursor itself is not bounded by the assignment
  length: the claim that fails has incremented it too.
\<close>

theorem claim_cursor:
  "(pc (threads s t) = Claiming \<longrightarrow>
      script_crt (devices (step run s t) (owner (threads s t)))
        = script_crt (devices s (owner (threads s t))) + 1
      \<and> pc (threads (step run s t) t) = Claimed (script_crt (devices s (owner (threads s t)))))
   \<and> script_crt (devices s a) \<le> script_crt (devices (step run s t) a)
   \<and> script_crt (devices s a) \<le> script_crt (devices (exec run s sched) a)
   \<and> (pc (threads s t) = Claimed index
        \<and> pc (threads (step run s t) t) = Acquiring loc sc \<longrightarrow>
        index < nr_scripturi (devices s (owner (threads s t))))
   \<and> (pc (threads s t) = Claimed index
        \<and> nr_scripturi (devices s (owner (threads s t))) \<le> index \<longrightarrow>
        step run s t = s\<lparr>threads := (threads s)(t := (threads s t)\<lparr>pc := Yielded\<rparr>)\<rparr>
        \<and> step run (step run s t) t = step run s t)"
proof -
  have e: "script_crt (devices s a) \<le> script_crt (devices (exec run s sched) a)"
  proof (induction sched arbitrary: s)
    case Nil
    then show ?case by simp
  next
    case (Cons u sched)
    have "script_crt (devices s a) \<le> script_crt (devices (step run s u) a)"
      by (rule script_crt_step)
    also have "\<dots> \<le> script_crt (devices (exec run (step run s u) sched) a)"
      by (rule Cons.IH)
    finally show ?case by simp
  qed
  have c: "pc (threads s t) = Claiming \<longrightarrow>
      script_crt (devices (step run s t) (owner (threads s t)))
        = script_crt (devices s (owner (threads s t))) + 1
      \<and> pc (threads (step run s t) t) = Claimed (script_crt (devices s (owner (threads s t))))"
    by (simp add: step_def Let_def goto_def)
  have p: "pc (threads s t) = Claimed index
        \<and> pc (threads (step run s t) t) = Acquiring loc sc \<longrightarrow>
        index < nr_scripturi (devices s (owner (threads s t)))"
    by (auto simp: step_def Let_def goto_def split: if_splits)
  have y: "pc (threads s t) = Claimed index
        \<and> nr_scripturi (devices s (owner (threads s t))) \<le> index \<longrightarrow>
        step run s t = s\<lparr>threads := (threads s)(t := (threads s t)\<lparr>pc := Yielded\<rparr>)\<rparr>
        \<and> step run (step run s t) t = step run s t"
    by (simp add: step_def Let_def goto_def)
  from c script_crt_step [of s a run t] e p y show ?thesis by blast
qed

theorem claim_cursor_witness:
  "pc (threads sys0 0) = Claiming
   \<and> script_crt (devices sys0 0) = 0
   \<and> script_crt (devices (step avg sys0 0) 0) = 1
   \<and> pc (threads (step avg sys0 0) 0) = Claimed 0
   \<and> pc (threads (exec avg sys0 [0, 0, 0, 0, 0, 0, 0]) 0) = Claimed 1
   \<and> nr_scripturi (devices (exec avg sys0 [0, 0, 0, 0, 0, 0, 0]) 0) = 1
   \<and> pc (threads (step avg (exec avg sys0 [0, 0, 0, 0, 0, 0, 0]) 0) 0) = Yielded
   \<and> locks (step avg (exec avg sys0 [0, 0, 0, 0, 0, 0, 0]) 0) = [False]"
proof -
  let ?s = "exec avg sys0 [0, 0, 0, 0, 0, 0, 0]"
  have a: "pc (threads sys0 0) = Claiming" "owner (threads sys0 0) = 0"
    "script_crt (devices sys0 0) = 0"
    by (simp_all add: sys0_def dev0_def assign_script_def Device_init_def)
  have b: "pc (threads ?s 0) = Claimed 1" "nr_scripturi (devices ?s 0) = 1"
    "owner (threads ?s 0) = 0" "locks ?s = [False]"
    using sys0_thread0_round by blast+
  from claim_cursor [of sys0 0 avg 0 "[]" 0 0 "''avg''"] a
  have 1: "script_crt (devices (step avg sys0 0) 0) = 1"
    "pc (threads (step avg sys0 0) 0) = Claimed 0"
    by simp_all
  from claim_cursor [of ?s 0 avg 0 "[]" 1 0 "''avg''"] b
  have "step avg ?s 0 = ?s\<lparr>threads := (threads ?s)(0 := (threads ?s 0)\<lparr>pc := Yielded\<rparr>)\<rparr>"
    by simp
  then have 2: "pc (threads (step avg ?s 0) 0) = Yielded" "locks (step avg ?s 0) = [False]"
    using b(4) by simp_all
  from a b 1 2 show ?thesis by simp
qed

theorem claim_cursor_overshoot_counterexample:
  "script_crt (devices (exec avg sys0 [0, 0, 0, 0, 0, 0, 0]) 0) = 2
   \<and> length (scripts (devices (exec avg sys0 [0, 0, 0, 0, 0, 0, 0]) 0)) = 1
   \<and> nr_scripturi (devices (exec avg sys0 [0, 0, 0, 0, 0, 0, 0]) 0) = 1"
  using sys0_thread0_round by simp

subsection \<open>The round transition\<close>

text \<open>
  Claim C4, as the code has it. The round transition (the reset of lines 242-243
  followed by the start of the next round, lines 184-186) clears the two signals, raises
  neighbours-ready again with the new neighbour list and sets the cursor to 0; it keeps
  the scripts, their locations, their count and the readings. So the assignments of
  round R are still there in round R+1, and the first claim of round R+1 yields the
  first script ever assigned, which is executed again (\<open>assign_script\<close>'s docstring:
  the script to execute from now on at each timepoint).
\<close>

theorem round_transition_keeps_assignments:
  "scripts (begin_round (reset_round d) nbs) = scripts d
   \<and> locations (begin_round (reset_round d) nbs) = locations d
   \<and> nr_scripturi (begin_round (reset_round d) nbs) = nr_scripturi d
   \<and> sensor_data (begin_round (reset_round d) nbs) = sensor_data d
   \<and> script_crt (begin_round (reset_round d) nbs) = 0
   \<and> neighbours (begin_round (reset_round d) nbs) = nbs
   \<and> event_neighbours (begin_round (reset_round d) nbs)
   \<and> \<not> timepoint_done (begin_round (reset_round d) nbs)
   \<and> (pc (threads s t) = Claiming
        \<and> devices s (owner (threads s t))
            = assign_script (begin_round (reset_round d) nbs) None l0
        \<and> scripts d = sc # scs \<and> locations d = loc # locs \<and> 0 < nr_scripturi d \<longrightarrow>
        pc (threads (step run (step run s t) t) t) = Acquiring loc sc)"
  by (simp add: begin_round_def reset_round_def assign_script_def step_def Let_def goto_def
      py_getitem_def py_index_def)

theorem round_transition_keeps_assignments_witness:
  "pc (threads sys0 0) = Claiming
   \<and> scripts dev0 = [''avg''] \<and> locations dev0 = [0] \<and> 0 < nr_scripturi dev0
   \<and> pc (threads
        (step avg (step avg
           (sys0\<lparr>devices := (devices sys0)
              (0 := assign_script (begin_round (reset_round dev0) (Some [1])) None 0)\<rparr>) 0) 0) 0)
       = Acquiring 0 ''avg''"
proof -
  let ?s = "sys0\<lparr>devices := (devices sys0)
              (0 := assign_script (begin_round (reset_round dev0) (Some [1])) None 0)\<rparr>"
  have a: "pc (threads ?s 0) = Claiming" "owner (threads ?s 0) = 0"
    "pc (threads sys0 0) = Claiming"
    by (simp_all add: sys0_def)
  have d: "scripts dev0 = [''avg'']" "locations dev0 = [0]" "0 < nr_scripturi dev0"
    by (simp_all add: dev0_def assign_script_def Device_init_def)
  from round_transition_keeps_assignments [of dev0 "Some [1]" ?s 0 0 "''avg''" "[]" 0 "[]" avg] a d
  have "pc (threads (step avg (step avg ?s 0) 0) 0) = Acquiring 0 ''avg''"
    by simp
  with a d show ?thesis by simp
qed

theorem round_transition_counterexample:
  "scripts (begin_round (reset_round dev0) (Some [1])) = [''avg'']
   \<and> locations (begin_round (reset_round dev0) (Some [1])) = [0]
   \<and> nr_scripturi (begin_round (reset_round dev0) (Some [1])) = 1"
  by (simp add: begin_round_def reset_round_def dev0_def assign_script_def Device_init_def)

end
